theory Spec2Isabelle
  imports Main
begin

section \<open>Errors\<close>

text \<open>
  The only failure the modelled code can raise by itself is the JavaScript
  \<^verbatim>\<open>TypeError\<close> of reading a property of \<^verbatim>\<open>undefined\<close>
  (\<^verbatim>\<open>metadata.steps[stepKey].state\<close> for a key that is not in the dictionary,
  \<^verbatim>\<open>node.id\<close> for an adjacent id that is not in \<^verbatim>\<open>graph.nodes\<close>).
  A function that can raise returns \<open>error + 'a\<close>, with \<open>Inl\<close> for the exception.
\<close>

datatype error = TypeError

section \<open>runs/LogsToolbar.tsx: resolveState\<close>

text \<open>
  Modelled from the spec: the declaration of \<^verbatim>\<open>IStepState\<close> lives in
  \<^verbatim>\<open>runs/RunMetadataProvider\<close>, which is not among the sources. The spec gives
  the execution state as the closed set RUNNING, SKIPPED, SUCCEEDED, FAILED; these are also
  the four members \<^verbatim>\<open>resolveState\<close> names.
\<close>

datatype IStepState = RUNNING | SKIPPED | SUCCEEDED | FAILED

text \<open>
  Of \<^verbatim>\<open>IStepMetadata\<close>, \<^verbatim>\<open>IRunMetadataDict\<close> and
  \<^verbatim>\<open>ILogCaptureInfo\<close> only the fields that \<^verbatim>\<open>resolveState\<close> reads
  are kept: \<^verbatim>\<open>metadata.steps\<close> is a dictionary from step key to step metadata,
  \<^verbatim>\<open>logCapture.stepKeys\<close> an array of step keys.
\<close>

record IStepMetadata =
  state :: IStepState

record IRunMetadataDict =
  steps :: "string \<rightharpoonup> IStepMetadata"

record ILogCaptureInfo =
  stepKeys :: "string list"

text \<open>
  \<^verbatim>\<open>Array.prototype.some\<close> and \<^verbatim>\<open>Array.prototype.every\<close> with a
  callback that may throw: the elements are visited in order, the visit stops at the first
  element that decides the answer, and an exception of the callback leaves the loop.
\<close>

fun some :: "('a \<Rightarrow> error + bool) \<Rightarrow> 'a list \<Rightarrow> error + bool" where
  "some f [] = Inr False"
| "some f (x # xs) =
     (case f x of
        Inl e \<Rightarrow> Inl e
      | Inr b \<Rightarrow> if b then Inr True else some f xs)"

fun every :: "('a \<Rightarrow> error + bool) \<Rightarrow> 'a list \<Rightarrow> error + bool" where
  "every f [] = Inr True"
| "every f (x # xs) =
     (case f x of
        Inl e \<Rightarrow> Inl e
      | Inr b \<Rightarrow> if b then every f xs else Inr False)"

text \<open>
  The callback \<^verbatim>\<open>(stepKey) => metadata.steps[stepKey].state === s\<close>.
\<close>

definition stateIs :: "IRunMetadataDict \<Rightarrow> IStepState \<Rightarrow> string \<Rightarrow> error + bool" where
  "stateIs metadata s stepKey =
     (case steps metadata stepKey of
        None \<Rightarrow> Inl TypeError
      | Some m \<Rightarrow> Inr (state m = s))"

definition resolveState :: "IRunMetadataDict \<Rightarrow> ILogCaptureInfo \<Rightarrow> error + IStepState" where
  "resolveState metadata logCapture =
     (case some (stateIs metadata RUNNING) (stepKeys logCapture) of
        Inl e \<Rightarrow> Inl e
      | Inr anyRunning \<Rightarrow>
          if anyRunning then Inr RUNNING
          else
            (case some (stateIs metadata SKIPPED) (stepKeys logCapture) of
               Inl e \<Rightarrow> Inl e
             | Inr anySkipped \<Rightarrow>
                 if anySkipped then Inr SKIPPED
                 else
                   (case every (stateIs metadata SUCCEEDED) (stepKeys logCapture) of
                      Inl e \<Rightarrow> Inl e
                    | Inr allSucceeded \<Rightarrow>
                        if allSucceeded then Inr SUCCEEDED else Inr FAILED)))"

text \<open>
  The state the dictionary records for a step key, when it records one.
\<close>

definition stepState :: "IRunMetadataDict \<Rightarrow> string \<Rightarrow> IStepState option" where
  "stepState metadata stepKey = map_option state (steps metadata stepKey)"

section \<open>workspace/asset-graph: the graph data\<close>

text \<open>
  A JavaScript object used as a dictionary with string keys: its own enumerable properties
  in the order \<^verbatim>\<open>Object.keys\<close> enumerates them. \<^verbatim>\<open>obj[k]\<close> is
  \<open>lookup obj k\<close>, with \<open>None\<close> for \<^verbatim>\<open>undefined\<close>.
\<close>

type_synonym 'v obj = "(string \<times> 'v) list"

definition Object_keys :: "'v obj \<Rightarrow> string list" where
  "Object_keys obj = map fst obj"

definition lookup :: "'v obj \<Rightarrow> string \<Rightarrow> 'v option" where
  "lookup obj k = map_of obj k"

text \<open>
  Modelled from the spec: \<^verbatim>\<open>Node\<close> and \<^verbatim>\<open>GraphData\<close> are declared in
  \<^verbatim>\<open>workspace/asset-graph/Utils\<close>, which is not among the sources. The spec gives
  a node an identifier, a definition (with the originating operation name and the owning job
  name, both optional) and a \<^verbatim>\<open>hidden\<close> flag, and gives the graph a mapping from
  node id to node and two mappings from node id to the set of upstream and of downstream
  neighbour ids. The code reads exactly these: \<^verbatim>\<open>node.id\<close>,
  \<^verbatim>\<open>node.definition.opName\<close>, \<^verbatim>\<open>node.definition.jobName\<close>,
  \<^verbatim>\<open>node.hidden\<close>, \<^verbatim>\<open>graph.nodes[n]\<close>, and
  \<^verbatim>\<open>Object.keys(graph.upstream[id] || {})\<close>, so a neighbour set is an object
  whose keys are the neighbour ids. The field \<^verbatim>\<open>id\<close> is written \<open>idN\<close>
  and \<^verbatim>\<open>definition\<close> is written \<open>defn\<close>.
\<close>

record AssetNodeDefinition =
  opName :: "string option"
  jobName :: "string option"

record Node =
  idN :: string
  defn :: AssetNodeDefinition
  hidden :: bool

record GraphData =
  nodes :: "Node obj"
  downstream :: "bool obj obj"
  upstream :: "bool obj obj"

section \<open>workspace/asset-graph/AssetGraphExplorer.tsx: opsInRange\<close>

text \<open>
  \<^verbatim>\<open>Object.keys(m[k] || {})\<close>, the ids that the mapping \<open>m\<close> records as
  neighbours of \<open>k\<close>, and the ids the loop of \<^verbatim>\<open>opsInRange\<close> walks:
  \<^verbatim>\<open>[...Object.keys(graph.upstream[from.id] || {}), ...Object.keys(graph.downstream[from.id] || {})]\<close>.
\<close>

definition neighbourIds :: "bool obj obj \<Rightarrow> string \<Rightarrow> string list" where
  "neighbourIds m k = Object_keys (case lookup m k of None \<Rightarrow> [] | Some ns \<Rightarrow> ns)"

definition adjacent :: "GraphData \<Rightarrow> Node \<Rightarrow> string list" where
  "adjacent graph from =
     neighbourIds (upstream graph) (idN from) @ neighbourIds (downstream graph) (idN from)"

text \<open>
  The ids of the nodes stored in the graph; a finite set, used to measure the recursion.
\<close>

definition nodeIds :: "GraphData \<Rightarrow> string set" where
  "nodeIds graph = idN ` snd ` set (nodes graph)"

text \<open>
  \<^verbatim>\<open>opsInRange({graph, from, to}, seen = [])\<close>. The first argument of the caller,
  \<^verbatim>\<open>from\<close>, may be falsy (\<open>None\<close>); the recursive calls always pass a node.
  \<open>opsInRange_loop\<close> is the \<^verbatim>\<open>for (const node of adjacent)\<close> loop on the
  adjacent ids still to walk, with the current value of \<^verbatim>\<open>best\<close>. The map
  \<^verbatim>\<open>(n) => graph.nodes[n]\<close> yields \<^verbatim>\<open>undefined\<close> for an id that is not
  in \<^verbatim>\<open>graph.nodes\<close>, and \<^verbatim>\<open>node.id\<close> then throws when the loop
  reaches it. The elements of the result are operation names, which may be
  \<^verbatim>\<open>null\<close> (\<open>None\<close>): the \<^verbatim>\<open>!\<close> of the source only silences the
  type checker.
\<close>

function opsInRange :: "GraphData \<Rightarrow> Node option \<Rightarrow> Node \<Rightarrow> string list \<Rightarrow> error + string option list"
  and opsInRange_loop :: "GraphData \<Rightarrow> Node \<Rightarrow> Node \<Rightarrow> string list \<Rightarrow> string list \<Rightarrow> string option list \<Rightarrow> error + string option list"
where
  "opsInRange graph None to seen = Inr []"
| "opsInRange graph (Some from) to seen =
     (if idN from = idN to then Inr [opName (defn to)]
      else opsInRange_loop graph from to seen (adjacent graph from) [])"
| "opsInRange_loop graph from to seen [] best = Inr best"
| "opsInRange_loop graph from to seen (n # rest) best =
     (case lookup (nodes graph) n of
        None \<Rightarrow> Inl TypeError
      | Some node \<Rightarrow>
          if idN node \<in> set seen then opsInRange_loop graph from to seen rest best
          else
            (case opsInRange graph (Some node) to (seen @ [idN from]) of
               Inl e \<Rightarrow> Inl e
             | Inr result \<Rightarrow>
                 opsInRange_loop graph from to seen rest
                   (if result \<noteq> [] \<and> (best = [] \<or> length result < length best)
                    then opName (defn from) # result else best)))"
  by pat_completeness auto
termination
proof (relation "inv_image (less_than <*lex*> less_than)
    (\<lambda>c. case c of
       Inl (graph, None, to, seen) \<Rightarrow> (0, 0)
     | Inl (graph, Some from, to, seen) \<Rightarrow>
         (2 * card (insert (idN from) (nodeIds graph) - set seen)
            + (if idN from \<in> set seen then 1 else 0),
          Suc (length (adjacent graph from)))
     | Inr (graph, from, to, seen, adj, best) \<Rightarrow>
         (2 * card (insert (idN from) (nodeIds graph) - set seen)
            + (if idN from \<in> set seen then 1 else 0),
          length adj))", goal_cases)
  case 1
  show ?case by (intro wf_inv_image wf_lex_prod wf_less_than)
next
  case (2 graph "from" to seen)
  show ?case by simp
next
  case (3 graph "from" to seen n rest best node)
  show ?case by simp
next
  case (4 graph "from" to seen n rest best node)
  have fin: "finite (nodeIds graph)" by (simp add: nodeIds_def)
  from 4 have "(n, node) \<in> set (nodes graph)" by (auto simp: lookup_def dest: map_of_SomeD)
  then have mem: "idN node \<in> nodeIds graph" by (force simp: nodeIds_def)
  have notseen: "idN node \<notin> set seen" using 4 by simp
  show ?case
  proof (cases "idN from \<in> set seen")
    case True
    then have "insert (idN node) (nodeIds graph) - set (seen @ [idN from])
                = insert (idN from) (nodeIds graph) - set seen"
      using mem by auto
    moreover have "idN node \<notin> set (seen @ [idN from])" using True notseen by auto
    ultimately show ?thesis using True by simp
  next
    case False
    let ?A = "insert (idN from) (nodeIds graph) - set seen"
    have eq: "insert (idN node) (nodeIds graph) - set (seen @ [idN from]) = ?A - {idN from}"
      using mem by auto
    have inA: "idN from \<in> ?A" using False by simp
    have "finite ?A" using fin by simp
    then have "card (?A - {idN from}) < card ?A" using inA by (rule card_Diff1_less)
    then show ?thesis using False eq by simp
  qed
next
  case (5 graph "from" to seen n rest best node result)
  show ?case by simp
qed

text \<open>
  The equation of \<open>opsInRange\<close> for a node is unfolded only where a proof asks for it.
\<close>

declare opsInRange.simps(2) [simp del]

text \<open>
  The value \<^verbatim>\<open>added\<close> that the click handler \<^verbatim>\<open>onSelectNode\<close> of
  \<^verbatim>\<open>AssetGraphExplorerWithData\<close> computes, the only call of
  \<^verbatim>\<open>opsInRange\<close>: the handler returns early (\<open>None\<close>) for a node without an
  operation name, and searches a path only on a shift-click with a selected node.
\<close>

definition onSelectNode_added ::
  "GraphData \<Rightarrow> Node option \<Rightarrow> bool \<Rightarrow> Node \<Rightarrow> (error + string option list) option" where
  "onSelectNode_added graph selected shiftKey node =
     (case opName (defn node) of
        None \<Rightarrow> None
      | Some name \<Rightarrow>
          if name = [] then None
          else Some (if shiftKey \<and> selected \<noteq> None
                     then opsInRange graph selected node []
                     else Inr [Some name]))"

section \<open>Vocabulary of the path properties\<close>

text \<open>
  \<open>linked graph x y\<close>: the search steps from node \<open>x\<close> to node \<open>y\<close>, that is,
  \<open>y\<close> is the node stored under an id that the upstream or the downstream mapping
  records for \<open>x\<close>. A path is a list of nodes in which each node is linked to the next.
\<close>

definition linked :: "GraphData \<Rightarrow> Node \<Rightarrow> Node \<Rightarrow> bool" where
  "linked graph x y = list_ex (\<lambda>n. lookup (nodes graph) n = Some y) (adjacent graph x)"

text \<open>
  \<open>candidate graph from to seen n node result\<close>: the loop of the call for \<open>from\<close>
  reaches the adjacent id \<open>n\<close>, finds the node stored under it not yet visited, and the
  recursive call for that node returns \<open>result\<close>.
\<close>

definition candidate ::
  "GraphData \<Rightarrow> Node \<Rightarrow> Node \<Rightarrow> string list \<Rightarrow> string \<Rightarrow> Node \<Rightarrow> string option list \<Rightarrow> bool" where
  "candidate graph from to seen n node result =
     (lookup (nodes graph) n = Some node \<and> idN node \<notin> set seen \<and>
      opsInRange graph (Some node) to (seen @ [idN from]) = Inr result)"

text \<open>
  \<open>pathOf graph from to ns r\<close>: the nodes \<open>ns\<close> form a simple path of the graph from
  \<open>from\<close> to a node with the id of \<open>to\<close>, and \<open>r\<close> lists their operation names,
  the last one read from \<open>to\<close> as the code does.
\<close>

definition pathOf ::
  "GraphData \<Rightarrow> Node \<Rightarrow> Node \<Rightarrow> Node list \<Rightarrow> string option list \<Rightarrow> bool" where
  "pathOf graph from to ns r =
     (ns \<noteq> [] \<and> hd ns = from \<and> idN (last ns) = idN to \<and>
      successively (linked graph) ns \<and> distinct (map idN ns) \<and>
      r = map (\<lambda>n. opName (defn n)) (butlast ns) @ [opName (defn to)])"

text \<open>
  The adjacency of ids: \<open>b\<close> is an upstream or a downstream neighbour of \<open>a\<close>.
\<close>

definition adjacency :: "GraphData \<Rightarrow> (string \<times> string) set" where
  "adjacency graph =
     {(a, b). b \<in> set (neighbourIds (upstream graph) a) \<union> set (neighbourIds (downstream graph) a)}"

text \<open>
  Modelled from the spec: \<^verbatim>\<open>buildGraphData\<close>, which builds every graph the
  explorer searches, is in the absent \<^verbatim>\<open>Utils\<close>. The spec gives its result two
  invariants that the search relies on: the node mapping is keyed by node id, and every id
  appearing in the upstream or downstream mapping exists in the node mapping.
\<close>

definition keyedById :: "GraphData \<Rightarrow> bool" where
  "keyedById graph = list_all (\<lambda>(k, node). idN node = k) (nodes graph)"

definition noDanglingIds :: "GraphData \<Rightarrow> bool" where
  "noDanglingIds graph =
     list_all
       (\<lambda>(k, ns). list_all (\<lambda>n. n \<in> set (Object_keys (nodes graph))) (Object_keys ns))
       (upstream graph @ downstream graph)"

section \<open>workspace/asset-graph/AssetGraphExplorer.tsx: the explorer\<close>

text \<open>
  The query result: \<^verbatim>\<open>repositoryOrError.__typename\<close> is
  \<^verbatim>\<open>'Repository'\<close>, with the repository's data, or another type name.
\<close>

datatype 'r RepositoryOrError = Repository 'r | NotRepository string

text \<open>
  Of the props only what the two components read to decide what to draw is kept:
  \<^verbatim>\<open>explorerPath\<close> and the name of the selected handle's solid definition
  (\<^verbatim>\<open>selectedHandle?.solid.definition.name\<close>).
\<close>

record PipelineExplorerPath =
  pipelineName :: string
  solidsQuery :: string
  pathSolids :: "string list"

record Props =
  explorerPath :: PipelineExplorerPath
  selectedHandle :: "string option"

text \<open>
  What a render returns: a \<^verbatim>\<open>NonIdealState\<close> with its icon, title and
  description, or the split panel of \<^verbatim>\<open>AssetGraphExplorerWithData\<close>, which draws
  the graph from the layout and the statuses computed during that render.
\<close>

record ('l, 's) ExplorerView =
  viewGraph :: GraphData
  viewSelected :: "Node option"
  viewLayout :: 'l
  viewStatuses :: 's

datatype ('l, 's) Element =
    NonIdealState string string "string option"
  | SplitPanelContainer "('l, 's) ExplorerView"

text \<open>
  \<^verbatim>\<open>buildGraphData\<close>, \<^verbatim>\<open>graphHasCycles\<close>, \<^verbatim>\<open>layoutGraph\<close> and
  \<^verbatim>\<open>buildGraphComputeStatuses\<close> are imported from
  \<^verbatim>\<open>workspace/asset-graph/Utils\<close>, which is not among the sources; the two components
  take them as parameters. \<open>'l\<close> is the type of a layout and \<open>'s\<close> the type of the
  computed statuses.
\<close>

definition AssetGraphExplorerWithData ::
  "(GraphData \<Rightarrow> 'l) \<Rightarrow> (GraphData \<Rightarrow> 's) \<Rightarrow> GraphData \<Rightarrow> Props \<Rightarrow> ('l, 's) Element" where
  "AssetGraphExplorerWithData layoutGraph buildGraphComputeStatuses graph props =
     SplitPanelContainer
       \<lparr>viewGraph = graph,
        viewSelected =
          (case selectedHandle props of
             None \<Rightarrow> None
           | Some name \<Rightarrow> find (\<lambda>node. opName (defn node) = Some name) (map snd (nodes graph))),
        viewLayout = layoutGraph graph,
        viewStatuses = buildGraphComputeStatuses graph\<rparr>"

definition AssetGraphExplorer ::
  "('r \<Rightarrow> string \<Rightarrow> GraphData) \<Rightarrow> (GraphData \<Rightarrow> bool) \<Rightarrow> (GraphData \<Rightarrow> 'l) \<Rightarrow> (GraphData \<Rightarrow> 's) \<Rightarrow>
   Props \<Rightarrow> 'r RepositoryOrError \<Rightarrow> ('l, 's) Element" where
  "AssetGraphExplorer buildGraphData graphHasCycles layoutGraph buildGraphComputeStatuses props
     repositoryOrError =
     (case repositoryOrError of
        NotRepository typename \<Rightarrow> NonIdealState ''error'' ''Query Error'' None
      | Repository repository \<Rightarrow>
          let graph = buildGraphData repository (pipelineName (explorerPath props)) in
          if graphHasCycles graph then
            NonIdealState ''error'' ''Cycle detected'' (Some ''Assets dependencies form a cycle'')
          else if length (Object_keys (nodes graph)) = 0 then
            NonIdealState ''no-results'' ''No assets defined''
              (Some ''No assets defined using the @asset definition'')
          else AssetGraphExplorerWithData layoutGraph buildGraphComputeStatuses graph props)"

text \<open>
  Modelled from the spec: \<^verbatim>\<open>graphHasCycles\<close> itself is in the absent
  \<^verbatim>\<open>Utils\<close>. The spec describes it as a depth-first traversal from every node that
  tracks the nodes on the current recursion stack and reports a cycle as soon as a node
  already on the stack is reached again through a downstream edge, with a guard on the
  recursion depth. The guard here is the number of nodes. It is used only to instantiate the
  parameter of \<open>AssetGraphExplorer\<close> on concrete graphs.
\<close>

fun hasCycleFrom :: "GraphData \<Rightarrow> nat \<Rightarrow> string list \<Rightarrow> string \<Rightarrow> bool" where
  "hasCycleFrom graph 0 stack k = (k \<in> set stack)"
| "hasCycleFrom graph (Suc depth) stack k =
     (k \<in> set stack \<or>
      list_ex (hasCycleFrom graph depth (k # stack))
        (neighbourIds (downstream graph) k))"

definition graphHasCycles_spec :: "GraphData \<Rightarrow> bool" where
  "graphHasCycles_spec graph =
     list_ex (hasCycleFrom graph (length (nodes graph)) []) (Object_keys (nodes graph))"

section \<open>Example graphs\<close>

text \<open>
  A node whose operation name is its id, and the graphs used as concrete inputs: the linear
  chain \<open>a \<rightarrow> b \<rightarrow> c\<close> (\<open>a\<close> upstream of \<open>b\<close>, \<open>b\<close> upstream of
  \<open>c\<close>), the cycle \<open>A \<rightarrow> B \<rightarrow> C \<rightarrow> A\<close>, and the graph without nodes.
\<close>

definition mkNode :: "string \<Rightarrow> Node" where
  "mkNode k = \<lparr>idN = k, defn = \<lparr>opName = Some k, jobName = None\<rparr>, hidden = False\<rparr>"

definition chainGraph :: "string \<Rightarrow> string \<Rightarrow> string \<Rightarrow> GraphData" where
  "chainGraph a b c =
     \<lparr>nodes = [(a, mkNode a), (b, mkNode b), (c, mkNode c)],
      downstream = [(a, [(b, True)]), (b, [(c, True)])],
      upstream = [(b, [(a, True)]), (c, [(b, True)])]\<rparr>"

definition cycleGraph :: GraphData where
  "cycleGraph =
     \<lparr>nodes = [(''A'', mkNode ''A''), (''B'', mkNode ''B''), (''C'', mkNode ''C'')],
      downstream = [(''A'', [(''B'', True)]), (''B'', [(''C'', True)]), (''C'', [(''A'', True)])],
      upstream = [(''B'', [(''A'', True)]), (''C'', [(''B'', True)]), (''A'', [(''C'', True)])]\<rparr>"

definition emptyGraph :: GraphData where
  "emptyGraph = \<lparr>nodes = [], downstream = [], upstream = []\<rparr>"

text \<open>
  The triangle \<open>A \<rightarrow> B\<close>, \<open>B \<rightarrow> C\<close>, \<open>A \<rightarrow> C\<close>, where the search from
  \<open>A\<close> to \<open>C\<close> first finds the path through \<open>B\<close> and then the direct edge; and
  the graph with the single edge \<open>A \<rightarrow> B\<close> and the isolated node \<open>C\<close>.
\<close>

definition triangleGraph :: GraphData where
  "triangleGraph =
     \<lparr>nodes = [(''A'', mkNode ''A''), (''B'', mkNode ''B''), (''C'', mkNode ''C'')],
      downstream = [(''A'', [(''B'', True), (''C'', True)]), (''B'', [(''C'', True)])],
      upstream = [(''B'', [(''A'', True)]), (''C'', [(''B'', True), (''A'', True)])]\<rparr>"

definition splitGraph :: GraphData where
  "splitGraph =
     \<lparr>nodes = [(''A'', mkNode ''A''), (''B'', mkNode ''B''), (''C'', mkNode ''C'')],
      downstream = [(''A'', [(''B'', True)])],
      upstream = [(''B'', [(''A'', True)])]\<rparr>"

text \<open>
  A node whose operation name differs from its id, and the chain \<open>A \<rightarrow> B \<rightarrow> C\<close> of
  such nodes, its objects keyed in the order \<open>B\<close>, \<open>A\<close>, \<open>C\<close>.
\<close>

definition opNode :: "string \<Rightarrow> string \<Rightarrow> Node" where
  "opNode k name = \<lparr>idN = k, defn = \<lparr>opName = Some name, jobName = None\<rparr>, hidden = False\<rparr>"

definition opChain :: GraphData where
  "opChain =
     \<lparr>nodes =
        [(''B'', opNode ''B'' ''op_b''), (''A'', opNode ''A'' ''op_a''),
         (''C'', opNode ''C'' ''op_c'')],
      downstream = [(''B'', [(''C'', True)]), (''A'', [(''B'', True)])],
      upstream = [(''C'', [(''B'', True)]), (''B'', [(''A'', True)])]\<rparr>"

section \<open>Properties of resolveState\<close>

lemma some_stateIs:
  "set ks \<subseteq> dom (steps metadata) \<Longrightarrow>
   some (stateIs metadata s) ks = Inr (\<exists>k \<in> set ks. stepState metadata k = Some s)"
  by (induction ks) (auto simp: stateIs_def stepState_def)

lemma every_stateIs:
  "set ks \<subseteq> dom (steps metadata) \<Longrightarrow>
   every (stateIs metadata s) ks = Inr (\<forall>k \<in> set ks. stepState metadata k = Some s)"
  by (induction ks) (auto simp: stateIs_def stepState_def)

text \<open>
  Claim C1. For a log-capture group whose step keys all have an entry in the metadata
  dictionary, the aggregated status follows the priority order, first match wins: RUNNING if
  some constituent step is RUNNING; otherwise SKIPPED if some constituent step is SKIPPED;
  otherwise SUCCEEDED if all constituent steps are SUCCEEDED; otherwise FAILED.
\<close>

theorem resolveState_priority:
  assumes "set (stepKeys logCapture) \<subseteq> dom (steps metadata)"
  shows "resolveState metadata logCapture =
           Inr (if \<exists>k \<in> set (stepKeys logCapture). stepState metadata k = Some RUNNING
                  then RUNNING
                else if \<exists>k \<in> set (stepKeys logCapture). stepState metadata k = Some SKIPPED
                  then SKIPPED
                else if \<forall>k \<in> set (stepKeys logCapture). stepState metadata k = Some SUCCEEDED
                  then SUCCEEDED
                else FAILED)"
  unfolding resolveState_def
  by (simp add: some_stateIs [OF assms] every_stateIs [OF assms])

theorem resolveState_priority_witness:
  "(let md = \<lparr>steps = [''a'' \<mapsto> \<lparr>state = RUNNING\<rparr>, ''b'' \<mapsto> \<lparr>state = FAILED\<rparr>]\<rparr>;
        lc = \<lparr>stepKeys = [''a'', ''b'']\<rparr>
    in set (stepKeys lc) \<subseteq> dom (steps md) \<and> resolveState md lc = Inr RUNNING) \<and>
   (let md = \<lparr>steps = [''a'' \<mapsto> \<lparr>state = SKIPPED\<rparr>, ''b'' \<mapsto> \<lparr>state = SUCCEEDED\<rparr>]\<rparr>;
        lc = \<lparr>stepKeys = [''a'', ''b'']\<rparr>
    in set (stepKeys lc) \<subseteq> dom (steps md) \<and> resolveState md lc = Inr SKIPPED) \<and>
   (let md = \<lparr>steps = [''a'' \<mapsto> \<lparr>state = SUCCEEDED\<rparr>, ''b'' \<mapsto> \<lparr>state = SUCCEEDED\<rparr>]\<rparr>;
        lc = \<lparr>stepKeys = [''a'', ''b'']\<rparr>
    in set (stepKeys lc) \<subseteq> dom (steps md) \<and> resolveState md lc = Inr SUCCEEDED) \<and>
   (let md = \<lparr>steps = [''a'' \<mapsto> \<lparr>state = SUCCEEDED\<rparr>, ''b'' \<mapsto> \<lparr>state = FAILED\<rparr>]\<rparr>;
        lc = \<lparr>stepKeys = [''a'', ''b'']\<rparr>
    in set (stepKeys lc) \<subseteq> dom (steps md) \<and> resolveState md lc = Inr FAILED)"
  using
    resolveState_priority
      [of "\<lparr>stepKeys = [''a'', ''b'']\<rparr>"
          "\<lparr>steps = [''a'' \<mapsto> \<lparr>state = RUNNING\<rparr>, ''b'' \<mapsto> \<lparr>state = FAILED\<rparr>]\<rparr>"]
    resolveState_priority
      [of "\<lparr>stepKeys = [''a'', ''b'']\<rparr>"
          "\<lparr>steps = [''a'' \<mapsto> \<lparr>state = SKIPPED\<rparr>, ''b'' \<mapsto> \<lparr>state = SUCCEEDED\<rparr>]\<rparr>"]
    resolveState_priority
      [of "\<lparr>stepKeys = [''a'', ''b'']\<rparr>"
          "\<lparr>steps = [''a'' \<mapsto> \<lparr>state = SUCCEEDED\<rparr>, ''b'' \<mapsto> \<lparr>state = SUCCEEDED\<rparr>]\<rparr>"]
    resolveState_priority
      [of "\<lparr>stepKeys = [''a'', ''b'']\<rparr>"
          "\<lparr>steps = [''a'' \<mapsto> \<lparr>state = SUCCEEDED\<rparr>, ''b'' \<mapsto> \<lparr>state = FAILED\<rparr>]\<rparr>"]
  by (simp add: stepState_def)

text \<open>
  Claim C7, as the code has it. For a log-capture group with zero constituent steps
  \<^verbatim>\<open>some\<close> is false twice and \<^verbatim>\<open>every\<close> is true, so the aggregation
  returns SUCCEEDED, one of the four states, whatever the metadata.
\<close>

theorem resolveState_no_steps:
  "resolveState metadata (logCapture\<lparr>stepKeys := []\<rparr>) = Inr SUCCEEDED"
  by (simp add: resolveState_def)

theorem resolveState_no_steps_counterexample:
  "resolveState \<lparr>steps = Map.empty\<rparr> \<lparr>stepKeys = []\<rparr> = Inr SUCCEEDED"
  by (simp add: resolveState_def)

section \<open>Properties of the explorer\<close>

text \<open>
  Claim C2. When the cycle check reports a cycle on the graph built from the repository, the
  explorer returns the error state titled "Cycle detected", whatever the layout and the
  status functions are: the render is not the split panel, so it holds no layout, no
  statuses, and no node whose click handler could start a path search.
\<close>

theorem explorer_cycle_short_circuits:
  assumes "graphHasCycles (buildGraphData repository (pipelineName (explorerPath props)))"
  shows "AssetGraphExplorer buildGraphData graphHasCycles layoutGraph buildGraphComputeStatuses
           props (Repository repository) =
         NonIdealState ''error'' ''Cycle detected'' (Some ''Assets dependencies form a cycle'')"
  using assms by (simp add: AssetGraphExplorer_def)

theorem explorer_cycle_short_circuits_witness:
  "graphHasCycles_spec
     ((\<lambda>r p. cycleGraph) () (pipelineName (explorerPath \<lparr>explorerPath =
        \<lparr>pipelineName = ''job'', solidsQuery = '''', pathSolids = []\<rparr>, selectedHandle = None\<rparr>))) \<and>
   AssetGraphExplorer (\<lambda>r p. cycleGraph) graphHasCycles_spec (\<lambda>g. length (nodes g)) (\<lambda>g. ())
     \<lparr>explorerPath = \<lparr>pipelineName = ''job'', solidsQuery = '''', pathSolids = []\<rparr>,
      selectedHandle = None\<rparr>
     (Repository ()) =
   NonIdealState ''error'' ''Cycle detected'' (Some ''Assets dependencies form a cycle'')"
proof -
  have cyc: "graphHasCycles_spec cycleGraph"
    by (simp add: graphHasCycles_spec_def cycleGraph_def Object_keys_def lookup_def
          neighbourIds_def numeral_3_eq_3)
  show ?thesis
    using cyc
      explorer_cycle_short_circuits
        [of graphHasCycles_spec "\<lambda>r p. cycleGraph" "()"
            "\<lparr>explorerPath = \<lparr>pipelineName = ''job'', solidsQuery = '''', pathSolids = []\<rparr>,
              selectedHandle = None\<rparr>"
            "\<lambda>g. length (nodes g)" "\<lambda>g. ()"]
    by simp
qed

text \<open>
  Claim C8. When the cycle check reports no cycle and the graph built from the repository
  has no node, the explorer returns the state titled "No assets defined", which differs
  from the cycle error state, whatever the layout and the status functions are: the render
  is not the split panel, so no layout is computed.
\<close>

theorem explorer_empty_graph_state:
  assumes "\<not> graphHasCycles (buildGraphData repository (pipelineName (explorerPath props)))"
    and "Object_keys (nodes (buildGraphData repository (pipelineName (explorerPath props)))) = []"
  shows "AssetGraphExplorer buildGraphData graphHasCycles layoutGraph buildGraphComputeStatuses
           props (Repository repository) =
         NonIdealState ''no-results'' ''No assets defined''
           (Some ''No assets defined using the @asset definition'') \<and>
         AssetGraphExplorer buildGraphData graphHasCycles layoutGraph buildGraphComputeStatuses
           props (Repository repository) \<noteq>
         NonIdealState ''error'' ''Cycle detected'' (Some ''Assets dependencies form a cycle'')"
  using assms by (simp add: AssetGraphExplorer_def)

theorem explorer_empty_graph_state_witness:
  "\<not> graphHasCycles_spec emptyGraph \<and> Object_keys (nodes emptyGraph) = [] \<and>
   AssetGraphExplorer (\<lambda>r p. emptyGraph) graphHasCycles_spec (\<lambda>g. length (nodes g)) (\<lambda>g. ())
     \<lparr>explorerPath = \<lparr>pipelineName = ''job'', solidsQuery = '''', pathSolids = []\<rparr>,
      selectedHandle = None\<rparr>
     (Repository ()) =
   NonIdealState ''no-results'' ''No assets defined''
     (Some ''No assets defined using the @asset definition'')"
proof -
  have nocyc: "\<not> graphHasCycles_spec emptyGraph"
    by (simp add: graphHasCycles_spec_def emptyGraph_def Object_keys_def)
  have nonodes: "Object_keys (nodes emptyGraph) = []"
    by (simp add: emptyGraph_def Object_keys_def)
  show ?thesis
    using nocyc nonodes
      explorer_empty_graph_state
        [of graphHasCycles_spec "\<lambda>r p. emptyGraph" "()"
            "\<lparr>explorerPath = \<lparr>pipelineName = ''job'', solidsQuery = '''', pathSolids = []\<rparr>,
              selectedHandle = None\<rparr>"
            "\<lambda>g. length (nodes g)" "\<lambda>g. ()"]
    by simp
qed

section \<open>Properties of opsInRange\<close>

subsection \<open>The loop over the adjacent ids\<close>

text \<open>
  One step of the loop either skips an id whose node is already visited, or compares the
  result found through it with \<open>best\<close>; an id without a node ends the loop with the
  exception.
\<close>

lemma loop_step_skip:
  "lookup (nodes graph) n = Some node \<Longrightarrow> idN node \<in> set seen \<Longrightarrow>
   opsInRange_loop graph from to seen (n # rest) best0 =
   opsInRange_loop graph from to seen rest best0"
  by simp

lemma loop_step_candidate:
  "candidate graph from to seen n node result \<Longrightarrow>
   opsInRange_loop graph from to seen (n # rest) best0 =
   opsInRange_loop graph from to seen rest
     (if result \<noteq> [] \<and> (best0 = [] \<or> length result < length best0)
      then opName (defn from) # result else best0)"
  by (simp add: candidate_def)

lemma loop_step_cases:
  assumes "opsInRange_loop graph from to seen (n # rest) best0 = Inr best"
  obtains node where "lookup (nodes graph) n = Some node" "idN node \<in> set seen"
  | node result where "candidate graph from to seen n node result"
proof (cases "lookup (nodes graph) n")
  case None
  with assms show ?thesis by simp
next
  case (Some node)
  show ?thesis
  proof (cases "idN node \<in> set seen")
    case True
    with Some that(1) show ?thesis by blast
  next
    case False
    show ?thesis
    proof (cases "opsInRange graph (Some node) to (seen @ [idN from])")
      case (Inl e)
      with assms Some False show ?thesis by simp
    next
      case (Inr result)
      with Some False have "candidate graph from to seen n node result"
        by (simp add: candidate_def)
      then show ?thesis by (rule that(2))
    qed
  qed
qed

text \<open>
  Once \<open>best\<close> is non-empty it stays non-empty and never grows; the value the loop
  returns is the initial one or \<open>from\<close> followed by a candidate; and every adjacent id
  is looked at, its candidate being no shorter than what the loop returns.
\<close>

lemma loop_shrinks:
  "opsInRange_loop graph from to seen adj best0 = Inr best \<Longrightarrow> best0 \<noteq> [] \<Longrightarrow>
   best \<noteq> [] \<and> length best \<le> length best0"
proof (induction adj arbitrary: best0)
  case Nil
  then show ?case by simp
next
  case (Cons n rest)
  from Cons.prems(1) show ?case
  proof (cases rule: loop_step_cases)
    case (1 node)
    then have "opsInRange_loop graph from to seen rest best0 = Inr best"
      using Cons.prems(1) by (simp only: loop_step_skip)
    then show ?thesis using Cons.IH Cons.prems(2) by blast
  next
    case (2 node result)
    let ?b1 = "if result \<noteq> [] \<and> (best0 = [] \<or> length result < length best0)
               then opName (defn from) # result else best0"
    have rest: "opsInRange_loop graph from to seen rest ?b1 = Inr best"
      using Cons.prems(1) loop_step_candidate [OF 2] by simp
    have "?b1 \<noteq> []" "length ?b1 \<le> length best0"
      using Cons.prems(2) by auto
    with Cons.IH [OF rest] show ?thesis by linarith
  qed
qed

lemma loop_origin:
  "opsInRange_loop graph from to seen adj best0 = Inr best \<Longrightarrow>
   best = best0 \<or>
   (\<exists>n \<in> set adj. \<exists>node result.
      candidate graph from to seen n node result \<and> result \<noteq> [] \<and>
      best = opName (defn from) # result)"
proof (induction adj arbitrary: best0)
  case Nil
  then show ?case by simp
next
  case (Cons n rest)
  from Cons.prems show ?case
  proof (cases rule: loop_step_cases)
    case (1 node)
    then have "opsInRange_loop graph from to seen rest best0 = Inr best"
      using Cons.prems by (simp only: loop_step_skip)
    from Cons.IH [OF this] show ?thesis by auto
  next
    case (2 node result)
    let ?b1 = "if result \<noteq> [] \<and> (best0 = [] \<or> length result < length best0)
               then opName (defn from) # result else best0"
    have rest: "opsInRange_loop graph from to seen rest ?b1 = Inr best"
      using Cons.prems loop_step_candidate [OF 2] by simp
    from Cons.IH [OF rest] consider "best = ?b1"
      | "\<exists>n \<in> set rest. \<exists>node result.
           candidate graph from to seen n node result \<and> result \<noteq> [] \<and>
           best = opName (defn from) # result"
      by blast
    then show ?thesis
    proof cases
      case 1
      show ?thesis
      proof (cases "result \<noteq> [] \<and> (best0 = [] \<or> length result < length best0)")
        case True
        with 1 have "best = opName (defn from) # result" "result \<noteq> []" by simp_all
        with 2 show ?thesis by (intro disjI2 bexI [of _ n]) auto
      next
        case False
        with 1 have "best = best0" by simp
        then show ?thesis by simp
      qed
    next
      case 2
      then show ?thesis by auto
    qed
  qed
qed

lemma loop_visits_all:
  "opsInRange_loop graph from to seen adj best0 = Inr best \<Longrightarrow> n \<in> set adj \<Longrightarrow>
   \<exists>node. lookup (nodes graph) n = Some node \<and>
     (idN node \<in> set seen \<or>
      (\<exists>result. candidate graph from to seen n node result \<and>
         (result = [] \<or> (best \<noteq> [] \<and> length best \<le> Suc (length result)))))"
proof (induction adj arbitrary: best0)
  case Nil
  then show ?case by simp
next
  case (Cons m rest)
  from Cons.prems(1) show ?case
  proof (cases rule: loop_step_cases)
    case (1 node)
    then have rest: "opsInRange_loop graph from to seen rest best0 = Inr best"
      using Cons.prems(1) by (simp only: loop_step_skip)
    show ?thesis
    proof (cases "n = m")
      case True
      with 1 show ?thesis by blast
    next
      case False
      with Cons.prems(2) have "n \<in> set rest" by simp
      from Cons.IH [OF rest this] show ?thesis .
    qed
  next
    case (2 node result)
    let ?b1 = "if result \<noteq> [] \<and> (best0 = [] \<or> length result < length best0)
               then opName (defn from) # result else best0"
    have rest: "opsInRange_loop graph from to seen rest ?b1 = Inr best"
      using Cons.prems(1) loop_step_candidate [OF 2] by simp
    show ?thesis
    proof (cases "n = m")
      case True
      have look: "lookup (nodes graph) n = Some node"
        using 2 True by (simp add: candidate_def)
      have "result = [] \<or> (best \<noteq> [] \<and> length best \<le> Suc (length result))"
      proof (cases "result = []")
        case True
        then show ?thesis by simp
      next
        case False
        then have "?b1 \<noteq> []" "length ?b1 \<le> Suc (length result)" by auto
        with loop_shrinks [OF rest] show ?thesis by linarith
      qed
      with 2 True look show ?thesis by blast
    next
      case False
      with Cons.prems(2) have "n \<in> set rest" by simp
      from Cons.IH [OF rest this] show ?thesis .
    qed
  qed
qed

text \<open>
  The search reads \<open>seen\<close> only through \<^verbatim>\<open>seen.includes\<close>, so two lists
  with the same elements give the same result.
\<close>

lemma seen_set_only:
  "\<forall>seen'. set seen' = set seen \<longrightarrow> opsInRange graph fo to seen' = opsInRange graph fo to seen"
  "\<forall>seen'. set seen' = set seen \<longrightarrow>
     opsInRange_loop graph from to seen' adj best = opsInRange_loop graph from to seen adj best"
proof (induction graph fo to seen and graph "from" to seen adj best
    rule: opsInRange_opsInRange_loop.induct)
  case (1 graph to seen)
  show ?case by simp
next
  case (2 graph "from" to seen)
  show ?case
  proof (intro allI impI)
    fix seen' assume eq: "set seen' = set seen"
    show "opsInRange graph (Some from) to seen' = opsInRange graph (Some from) to seen"
    proof (cases "idN from = idN to")
      case True
      then show ?thesis by (simp add: opsInRange.simps(2))
    next
      case False
      from "2.IH" [OF False, THEN spec, THEN mp, OF eq] False
      show ?thesis by (simp add: opsInRange.simps(2))
    qed
  qed
next
  case (3 graph "from" to seen best)
  show ?case by simp
next
  case (4 graph "from" to seen n rest best)
  show ?case
  proof (intro allI impI)
    fix seen' assume eq: "set seen' = set seen"
    show "opsInRange_loop graph from to seen' (n # rest) best =
          opsInRange_loop graph from to seen (n # rest) best"
    proof (cases "lookup (nodes graph) n")
      case None
      then show ?thesis by simp
    next
      case (Some node)
      show ?thesis
      proof (cases "idN node \<in> set seen")
        case True
        from "4.IH"(1) [OF Some True, THEN spec, THEN mp, OF eq] Some True eq
        show ?thesis by simp
      next
        case False
        have "set (seen' @ [idN from]) = set (seen @ [idN from])" using eq by simp
        from "4.IH"(2) [OF Some False, THEN spec, THEN mp, OF this]
        have sub: "opsInRange graph (Some node) to (seen' @ [idN from]) =
                   opsInRange graph (Some node) to (seen @ [idN from])" .
        show ?thesis
        proof (cases "opsInRange graph (Some node) to (seen @ [idN from])")
          case (Inl e)
          with Some False eq sub show ?thesis by simp
        next
          case (Inr result)
          from "4.IH"(3) [OF Some False Inr, THEN spec, THEN mp, OF eq] Some False eq sub Inr
          show ?thesis by simp
        qed
      qed
    qed
  qed
qed

subsection \<open>A result is a simple path\<close>

text \<open>
  A node with a self-loop is adjacent to itself and, not being in \<open>seen\<close> yet, is
  searched once more; the result found that way repeats the node and is one longer than a
  result found directly, so it is never the one the loop keeps.
\<close>

lemma adjacent_same_id: "idN x = idN y \<Longrightarrow> adjacent graph x = adjacent graph y"
  by (simp add: adjacent_def)

lemma winner_not_self:
  assumes loop: "opsInRange_loop graph from to seen (adjacent graph from) [] = Inr best"
    and cand: "candidate graph from to seen n node result"
    and ne: "result \<noteq> []"
    and best: "best = opName (defn from) # result"
    and diff: "idN from \<noteq> idN to"
  shows "idN node \<noteq> idN from"
proof
  assume same: "idN node = idN from"
  from cand have res: "opsInRange graph (Some node) to (seen @ [idN from]) = Inr result"
    by (simp add: candidate_def)
  from same diff have "idN node \<noteq> idN to" by simp
  with res have inner:
    "opsInRange_loop graph node to (seen @ [idN from]) (adjacent graph from) [] = Inr result"
    using adjacent_same_id [OF same, of graph] by (simp add: opsInRange.simps(2))
  from loop_origin [OF inner] ne obtain n2 node2 result2 where
    n2: "n2 \<in> set (adjacent graph from)"
    and c2: "candidate graph node to (seen @ [idN from]) n2 node2 result2"
    and ne2: "result2 \<noteq> []"
    and r2: "result = opName (defn node) # result2"
    by blast
  from c2 have look2: "lookup (nodes graph) n2 = Some node2"
    and notseen2: "idN node2 \<notin> set seen"
    and res2: "opsInRange graph (Some node2) to ((seen @ [idN from]) @ [idN node]) = Inr result2"
    by (simp_all add: candidate_def)
  from loop_visits_all [OF loop n2] look2 notseen2 obtain result' where
    c': "candidate graph from to seen n2 node2 result'"
    and len: "result' = [] \<or> (best \<noteq> [] \<and> length best \<le> Suc (length result'))"
    by auto
  have "set ((seen @ [idN from]) @ [idN node]) = set (seen @ [idN from])"
    using same by auto
  from seen_set_only(1) [THEN spec, THEN mp, OF this]
  have "opsInRange graph (Some node2) to ((seen @ [idN from]) @ [idN node]) =
        opsInRange graph (Some node2) to (seen @ [idN from])" .
  with res2 c' have "result' = result2" by (simp add: candidate_def)
  with len ne2 have "length best \<le> Suc (length result2)" by simp
  with best r2 show False by simp
qed

lemma path_cons:
  assumes p: "pathOf graph node to ns result"
    and dis: "set (map idN (tl ns)) \<inter> set (seen @ [idN from]) = {}"
    and cand: "candidate graph from to seen n node result"
    and n: "n \<in> set (adjacent graph from)"
    and notself: "idN node \<noteq> idN from"
  shows "pathOf graph from to (from # ns) (opName (defn from) # result) \<and>
         set (map idN (tl (from # ns))) \<inter> set seen = {}"
proof -
  from p have ns: "ns \<noteq> []" and hd: "hd ns = node" and lastn: "idN (last ns) = idN to"
    and succ: "successively (linked graph) ns" and dist: "distinct (map idN ns)"
    and r: "result = map (\<lambda>n. opName (defn n)) (butlast ns) @ [opName (defn to)]"
    by (simp_all add: pathOf_def)
  from ns hd obtain tl' where nseq: "ns = node # tl'" by (cases ns) auto
  from cand have look: "lookup (nodes graph) n = Some node" and notseen: "idN node \<notin> set seen"
    by (simp_all add: candidate_def)
  have link: "linked graph from node"
    using n look by (auto simp: linked_def list_ex_iff)
  have succ': "successively (linked graph) (from # ns)"
    using succ link nseq by simp
  have fresh: "idN from \<notin> set (map idN ns)"
    using dis notself nseq by auto
  have dist': "distinct (map idN (from # ns))" using dist fresh by simp
  have r': "opName (defn from) # result =
            map (\<lambda>n. opName (defn n)) (butlast (from # ns)) @ [opName (defn to)]"
    using r ns by simp
  have d': "set (map idN (tl (from # ns))) \<inter> set seen = {}"
    using dis notseen nseq by auto
  show ?thesis
    unfolding pathOf_def using ns lastn succ' dist' r' d' by simp
qed

text \<open>
  By induction on the computation: a non-empty result of a call is a path that avoids the
  ids in \<open>seen\<close> after its first node, and so is every candidate of its loop.
\<close>

lemma path_exists_aux:
  "\<forall>from r. fo = Some from \<longrightarrow> opsInRange graph fo to seen = Inr r \<longrightarrow> r \<noteq> [] \<longrightarrow>
     (\<exists>ns. pathOf graph from to ns r \<and> set (map idN (tl ns)) \<inter> set seen = {})"
  "\<forall>best. opsInRange_loop graph from to seen adj best0 = Inr best \<longrightarrow>
     (\<forall>n \<in> set adj. \<forall>node result.
        candidate graph from to seen n node result \<longrightarrow> result \<noteq> [] \<longrightarrow>
        (\<exists>ns. pathOf graph node to ns result \<and>
              set (map idN (tl ns)) \<inter> set (seen @ [idN from]) = {}))"
proof (induction graph fo to seen and graph "from" to seen adj best0
    rule: opsInRange_opsInRange_loop.induct)
  case (1 graph to seen)
  show ?case by simp
next
  case (2 graph "from" to seen)
  show ?case
  proof (intro allI impI)
    fix from' r
    assume fo: "Some from = Some from'"
      and res: "opsInRange graph (Some from) to seen = Inr r" and ne: "r \<noteq> []"
    from fo have [simp]: "from' = from" by simp
    show "\<exists>ns. pathOf graph from' to ns r \<and> set (map idN (tl ns)) \<inter> set seen = {}"
    proof (cases "idN from = idN to")
      case True
      with res have "r = [opName (defn to)]" by (simp add: opsInRange.simps(2))
      with True have "pathOf graph from to [from] r \<and> set (map idN (tl [from])) \<inter> set seen = {}"
        by (simp add: pathOf_def)
      then show ?thesis by auto
    next
      case False
      with res have loop: "opsInRange_loop graph from to seen (adjacent graph from) [] = Inr r"
        by (simp add: opsInRange.simps(2))
      from loop_origin [OF loop] ne obtain n node result where
        n: "n \<in> set (adjacent graph from)"
        and cand: "candidate graph from to seen n node result"
        and ne': "result \<noteq> []" and r: "r = opName (defn from) # result"
        by blast
      from "2.IH" [OF False, THEN spec, THEN mp, OF loop] n cand ne'
      obtain ns where p: "pathOf graph node to ns result"
        and dis: "set (map idN (tl ns)) \<inter> set (seen @ [idN from]) = {}"
        by blast
      have notself: "idN node \<noteq> idN from"
        by (rule winner_not_self [OF loop cand ne' r False])
      from path_cons [OF p dis cand n notself] r
      have "pathOf graph from' to (from # ns) r \<and>
            set (map idN (tl (from # ns))) \<inter> set seen = {}" by simp
      then show ?thesis by (rule exI)
    qed
  qed
next
  case (3 graph "from" to seen best)
  show ?case by simp
next
  case (4 graph "from" to seen m rest best0)
  show ?case
  proof (intro allI impI ballI)
    fix best n node result
    assume loop: "opsInRange_loop graph from to seen (m # rest) best0 = Inr best"
      and n: "n \<in> set (m # rest)"
      and cand: "candidate graph from to seen n node result"
      and ne: "result \<noteq> []"
    from loop show "\<exists>ns. pathOf graph node to ns result \<and>
              set (map idN (tl ns)) \<inter> set (seen @ [idN from]) = {}"
    proof (cases rule: loop_step_cases)
      case (1 node1)
      then have rest: "opsInRange_loop graph from to seen rest best0 = Inr best"
        using loop by (simp only: loop_step_skip)
      have "n \<noteq> m" using 1 cand by (auto simp: candidate_def)
      with n have "n \<in> set rest" by simp
      with "4.IH"(1) [OF 1, THEN spec, THEN mp, OF rest] cand ne show ?thesis by blast
    next
      case (2 node1 result1)
      then have look1: "lookup (nodes graph) m = Some node1"
        and notseen1: "idN node1 \<notin> set seen"
        and res1: "opsInRange graph (Some node1) to (seen @ [idN from]) = Inr result1"
        by (simp_all add: candidate_def)
      show ?thesis
      proof (cases "n = m")
        case True
        with cand look1 res1 have "node = node1" "result = result1"
          by (simp_all add: candidate_def)
        with "4.IH"(2) [OF look1 notseen1] res1 ne show ?thesis by blast
      next
        case False
        with n have nrest: "n \<in> set rest" by simp
        have rest: "opsInRange_loop graph from to seen rest
           (if result1 \<noteq> [] \<and> (best0 = [] \<or> length result1 < length best0)
            then opName (defn from) # result1 else best0) = Inr best"
          using loop loop_step_candidate [OF 2] by simp
        from "4.IH"(3) [OF look1 notseen1 res1, THEN spec, THEN mp, OF rest] nrest cand ne
        show ?thesis by blast
      qed
    qed
  qed
qed

lemma path_exists:
  "opsInRange graph (Some from) to seen = Inr r \<Longrightarrow> r \<noteq> [] \<Longrightarrow>
   \<exists>ns. pathOf graph from to ns r \<and> set (map idN (tl ns)) \<inter> set seen = {}"
  using path_exists_aux(1) [of "Some from" graph to seen] by blast

subsection \<open>No exception and no path\<close>

lemma neighbourIds_entry:
  assumes "n \<in> set (neighbourIds m k)"
  shows "\<exists>ns. (k, ns) \<in> set m \<and> n \<in> set (Object_keys ns)"
proof (cases "lookup m k")
  case None
  with assms show ?thesis by (simp add: neighbourIds_def Object_keys_def)
next
  case (Some ns)
  then have "(k, ns) \<in> set m" by (auto simp: lookup_def dest: map_of_SomeD)
  moreover from Some assms have "n \<in> set (Object_keys ns)" by (simp add: neighbourIds_def)
  ultimately show ?thesis by blast
qed

lemma neighbours_in_nodes:
  assumes "noDanglingIds graph" and "n \<in> set (adjacent graph from)"
  shows "\<exists>node. lookup (nodes graph) n = Some node"
proof -
  from assms(2) have "n \<in> set (neighbourIds (upstream graph) (idN from)) \<or>
                      n \<in> set (neighbourIds (downstream graph) (idN from))"
    by (simp add: adjacent_def)
  then obtain ns where "(idN from, ns) \<in> set (upstream graph @ downstream graph)"
    and n: "n \<in> set (Object_keys ns)"
    using neighbourIds_entry by fastforce
  with assms(1) have "n \<in> set (Object_keys (nodes graph))"
    by (auto simp: noDanglingIds_def list_all_iff)
  then have "lookup (nodes graph) n \<noteq> None"
    by (simp add: lookup_def Object_keys_def map_of_eq_None_iff)
  then show ?thesis by auto
qed

text \<open>
  With no dangling id, \<^verbatim>\<open>graph.nodes[n]\<close> is defined for every adjacent id, and
  the search returns a value.
\<close>

lemma no_exception_aux:
  "noDanglingIds graph \<longrightarrow> (\<exists>r. opsInRange graph fo to seen = Inr r)"
  "noDanglingIds graph \<longrightarrow> (\<forall>n \<in> set adj. \<exists>node. lookup (nodes graph) n = Some node) \<longrightarrow>
     (\<exists>r. opsInRange_loop graph from to seen adj best = Inr r)"
proof (induction graph fo to seen and graph "from" to seen adj best
    rule: opsInRange_opsInRange_loop.induct)
  case (1 graph to seen)
  show ?case by simp
next
  case (2 graph "from" to seen)
  show ?case
  proof
    assume inv: "noDanglingIds graph"
    show "\<exists>r. opsInRange graph (Some from) to seen = Inr r"
    proof (cases "idN from = idN to")
      case True
      then show ?thesis by (simp add: opsInRange.simps(2))
    next
      case False
      have "\<forall>n \<in> set (adjacent graph from). \<exists>node. lookup (nodes graph) n = Some node"
        using neighbours_in_nodes [OF inv] by blast
      with "2.IH" [OF False] inv False show ?thesis by (simp add: opsInRange.simps(2))
    qed
  qed
next
  case (3 graph "from" to seen best)
  show ?case by simp
next
  case (4 graph "from" to seen n rest best)
  show ?case
  proof (intro impI)
    assume inv: "noDanglingIds graph"
      and all: "\<forall>n \<in> set (n # rest). \<exists>node. lookup (nodes graph) n = Some node"
    from all obtain node where look: "lookup (nodes graph) n = Some node" by auto
    from all have rest: "\<forall>n \<in> set rest. \<exists>node. lookup (nodes graph) n = Some node" by simp
    show "\<exists>r. opsInRange_loop graph from to seen (n # rest) best = Inr r"
    proof (cases "idN node \<in> set seen")
      case True
      with "4.IH"(1) [OF look True] inv rest look show ?thesis by simp
    next
      case False
      from "4.IH"(2) [OF look False] inv obtain result where
        res: "opsInRange graph (Some node) to (seen @ [idN from]) = Inr result" by blast
      from "4.IH"(3) [OF look False res] inv rest look False res show ?thesis by simp
    qed
  qed
qed

lemma linked_adjacency:
  assumes "keyedById graph" and "linked graph x y"
  shows "(idN x, idN y) \<in> adjacency graph"
proof -
  from assms(2) obtain n where n: "n \<in> set (adjacent graph x)"
    and look: "lookup (nodes graph) n = Some y"
    by (auto simp: linked_def list_ex_iff)
  from look have "(n, y) \<in> set (nodes graph)" by (auto simp: lookup_def dest: map_of_SomeD)
  with assms(1) have "idN y = n" by (auto simp: keyedById_def list_all_iff)
  with n show ?thesis by (auto simp: adjacency_def adjacent_def)
qed

lemma path_connected:
  assumes "keyedById graph"
  shows "successively (linked graph) ns \<Longrightarrow> ns \<noteq> [] \<Longrightarrow>
         (idN (hd ns), idN (last ns)) \<in> (adjacency graph)\<^sup>*"
proof (induction ns rule: induct_list012)
  case 1
  then show ?case by simp
next
  case (2 x)
  then show ?case by simp
next
  case (3 x y zs)
  then have "(idN x, idN y) \<in> adjacency graph"
    using linked_adjacency [OF assms] by simp
  moreover have "(idN y, idN (last (y # zs))) \<in> (adjacency graph)\<^sup>*"
    using 3 by simp
  ultimately show ?case by (simp add: converse_rtrancl_into_rtrancl)
qed

lemma no_path_empty:
  assumes "keyedById graph" and "noDanglingIds graph"
    and "(idN from, idN to) \<notin> (adjacency graph)\<^sup>*"
  shows "opsInRange graph (Some from) to seen = Inr []"
proof -
  from no_exception_aux(1) [of graph "Some from" to seen] assms(2)
  obtain r where r: "opsInRange graph (Some from) to seen = Inr r" by blast
  have "r = []"
  proof (rule ccontr)
    assume "r \<noteq> []"
    from path_exists [OF r this] obtain ns where "pathOf graph from to ns r" by blast
    then have "ns \<noteq> []" "hd ns = from" "idN (last ns) = idN to" "successively (linked graph) ns"
      by (simp_all add: pathOf_def)
    with path_connected [OF assms(1), of ns] have "(idN from, idN to) \<in> (adjacency graph)\<^sup>*"
      by simp
    with assms(3) show False by simp
  qed
  with r show ?thesis by simp
qed

lemma rtrancl_stays_in:
  assumes "(x, y) \<in> R\<^sup>*" and "x \<in> S" and "\<And>a b. (a, b) \<in> R \<Longrightarrow> a \<in> S \<Longrightarrow> b \<in> S"
  shows "y \<in> S"
  using assms by (induction rule: rtrancl_induct) auto

subsection \<open>The search on the example graphs\<close>

lemmas eval_defs = opsInRange.simps(2) adjacent_def neighbourIds_def Object_keys_def lookup_def
  mkNode_def

lemma chain_eval:
  assumes "distinct [a, b, c]"
  shows "opsInRange (chainGraph a b c) (Some (mkNode a)) (mkNode c) [] = Inr [Some a, Some b, Some c]"
  using assms by (auto simp: eval_defs chainGraph_def)

lemma tri_eval:
  "opsInRange triangleGraph (Some (mkNode ''A'')) (mkNode ''C'') [] = Inr [Some ''A'', Some ''C'']"
  by (simp add: eval_defs triangleGraph_def)

lemma split_invariants: "keyedById splitGraph" "noDanglingIds splitGraph"
  by (simp_all add: keyedById_def noDanglingIds_def splitGraph_def mkNode_def Object_keys_def)

lemma split_disconnected:
  "(''A'', ''C'') \<notin> (adjacency splitGraph \<union> (adjacency splitGraph)\<inverse>)\<^sup>*"
proof
  assume "(''A'', ''C'') \<in> (adjacency splitGraph \<union> (adjacency splitGraph)\<inverse>)\<^sup>*"
  moreover have "''A'' \<in> {''A'', ''B''}" by simp
  moreover have "\<And>a b. (a, b) \<in> adjacency splitGraph \<union> (adjacency splitGraph)\<inverse> \<Longrightarrow>
      a \<in> {''A'', ''B''} \<Longrightarrow> b \<in> {''A'', ''B''}"
    by (auto simp: adjacency_def splitGraph_def neighbourIds_def Object_keys_def lookup_def
          split: if_splits)
  ultimately have "''C'' \<in> {''A'', ''B''}" by (rule rtrancl_stays_in)
  then show False by simp
qed

subsection \<open>Properties of the search\<close>


text \<open>
  Claim C3. In a call whose endpoints differ and that returns \<open>best\<close>, every id that
  the upstream or the downstream mapping records for \<open>from\<close> has a node, and unless that
  node is already in \<open>seen\<close> (the ids on the current recursion path) it is searched with
  \<open>seen\<close> extended by \<open>from\<close> alone, whatever the searches through the other
  neighbours visited; a non-empty result found that way is a candidate, and \<open>best\<close> is
  then non-empty and no longer than \<open>from\<close> followed by that candidate. A non-empty
  \<open>best\<close> is \<open>from\<close> followed by one of these candidates.
\<close>

theorem opsInRange_keeps_shortest:
  assumes "idN from \<noteq> idN to"
    and "opsInRange graph (Some from) to seen = Inr best"
  shows "(\<forall>n \<in> set (neighbourIds (upstream graph) (idN from)) \<union>
               set (neighbourIds (downstream graph) (idN from)).
            \<exists>node. lookup (nodes graph) n = Some node \<and>
              (idN node \<in> set seen \<or>
               (\<exists>result.
                  opsInRange graph (Some node) to (seen @ [idN from]) = Inr result \<and>
                  (result = [] \<or> (best \<noteq> [] \<and> length best \<le> Suc (length result)))))) \<and>
         (best = [] \<or>
          (\<exists>n \<in> set (neighbourIds (upstream graph) (idN from)) \<union>
                 set (neighbourIds (downstream graph) (idN from)).
             \<exists>node result.
               lookup (nodes graph) n = Some node \<and> idN node \<notin> set seen \<and>
               opsInRange graph (Some node) to (seen @ [idN from]) = Inr result \<and>
               result \<noteq> [] \<and> best = opName (defn from) # result))"
proof -
  have adj: "set (adjacent graph from) =
             set (neighbourIds (upstream graph) (idN from)) \<union>
             set (neighbourIds (downstream graph) (idN from))"
    by (simp add: adjacent_def)
  from assms have loop: "opsInRange_loop graph from to seen (adjacent graph from) [] = Inr best"
    by (simp add: opsInRange.simps(2))
  have one: "\<forall>n \<in> set (adjacent graph from).
            \<exists>node. lookup (nodes graph) n = Some node \<and>
              (idN node \<in> set seen \<or>
               (\<exists>result.
                  opsInRange graph (Some node) to (seen @ [idN from]) = Inr result \<and>
                  (result = [] \<or> (best \<noteq> [] \<and> length best \<le> Suc (length result)))))"
  proof
    fix n assume "n \<in> set (adjacent graph from)"
    from loop_visits_all [OF loop this] show "\<exists>node. lookup (nodes graph) n = Some node \<and>
              (idN node \<in> set seen \<or>
               (\<exists>result.
                  opsInRange graph (Some node) to (seen @ [idN from]) = Inr result \<and>
                  (result = [] \<or> (best \<noteq> [] \<and> length best \<le> Suc (length result)))))"
      unfolding candidate_def by blast
  qed
  have two: "best = [] \<or>
          (\<exists>n \<in> set (adjacent graph from).
             \<exists>node result.
               lookup (nodes graph) n = Some node \<and> idN node \<notin> set seen \<and>
               opsInRange graph (Some node) to (seen @ [idN from]) = Inr result \<and>
               result \<noteq> [] \<and> best = opName (defn from) # result)"
    using loop_origin [OF loop] unfolding candidate_def by blast
  from one two show ?thesis unfolding adj by (rule conjI)
qed

theorem opsInRange_keeps_shortest_witness:
  "idN (mkNode ''A'') \<noteq> idN (mkNode ''C'') \<and>
   opsInRange triangleGraph (Some (mkNode ''A'')) (mkNode ''C'') [] = Inr [Some ''A'', Some ''C''] \<and>
   (\<exists>node. lookup (nodes triangleGraph) ''B'' = Some node \<and>
      (\<exists>result.
         opsInRange triangleGraph (Some node) (mkNode ''C'') [''A''] = Inr result \<and>
         result = [Some ''B'', Some ''C''] \<and>
         length [Some ''A'', Some ''C''] \<le> Suc (length result)))"
proof -
  have ne: "idN (mkNode ''A'') \<noteq> idN (mkNode ''C'')" by (simp add: mkNode_def)
  have nb: "''B'' \<in> set (neighbourIds (upstream triangleGraph) (idN (mkNode ''A''))) \<union>
                  set (neighbourIds (downstream triangleGraph) (idN (mkNode ''A'')))"
    by (simp add: triangleGraph_def neighbourIds_def Object_keys_def lookup_def mkNode_def)
  from opsInRange_keeps_shortest [OF ne tri_eval] nb
  obtain node where look: "lookup (nodes triangleGraph) ''B'' = Some node"
    and alt: "idN node \<in> set [] \<or>
       (\<exists>result.
          opsInRange triangleGraph (Some node) (mkNode ''C'') ([] @ [idN (mkNode ''A'')]) = Inr result \<and>
          (result = [] \<or>
           ([Some ''A'', Some ''C''] \<noteq> [] \<and>
            length [Some ''A'', Some ''C''] \<le> Suc (length result))))"
    by blast
  from look have node: "node = mkNode ''B''"
    by (simp add: triangleGraph_def lookup_def)
  have sub: "opsInRange triangleGraph (Some (mkNode ''B'')) (mkNode ''C'') [''A''] =
             Inr [Some ''B'', Some ''C'']"
    by (simp add: eval_defs triangleGraph_def)
  from alt node sub have "length [Some ''A'', Some ''C''] \<le> Suc (length [Some ''B'', Some ''C''])"
    by (simp add: mkNode_def)
  with ne tri_eval look node sub show ?thesis by simp
qed

text \<open>
  Claim C4, as the code has it. On every graph that holds a three-node linear chain (three
  nodes \<open>na\<close>, \<open>nb\<close>, \<open>nc\<close> with distinct ids, stored under their ids, \<open>na\<close>
  the only upstream neighbour of \<open>nb\<close> and \<open>nb\<close> the only one of \<open>nc\<close>, and no
  other neighbours), whatever the order of the keys, the path search from \<open>na\<close> to
  \<open>nc\<close> returns exactly the operation names of \<open>na\<close>, \<open>nb\<close>, \<open>nc\<close> in this
  order, and the search from \<open>nc\<close> to \<open>na\<close> returns them reversed. The elements are
  the nodes' operation names, which are the ids only for nodes named by their id.
\<close>

theorem opsInRange_chain:
  assumes "distinct [idN na, idN nb, idN nc]"
    and "lookup (nodes graph) (idN na) = Some na"
    and "lookup (nodes graph) (idN nb) = Some nb"
    and "lookup (nodes graph) (idN nc) = Some nc"
    and "neighbourIds (upstream graph) (idN na) = []"
    and "neighbourIds (downstream graph) (idN na) = [idN nb]"
    and "neighbourIds (upstream graph) (idN nb) = [idN na]"
    and "neighbourIds (downstream graph) (idN nb) = [idN nc]"
    and "neighbourIds (upstream graph) (idN nc) = [idN nb]"
    and "neighbourIds (downstream graph) (idN nc) = []"
  shows "opsInRange graph (Some na) nc [] =
           Inr [opName (defn na), opName (defn nb), opName (defn nc)] \<and>
         opsInRange graph (Some nc) na [] =
           Inr [opName (defn nc), opName (defn nb), opName (defn na)]"
proof -
  from assms(1) have ne:
    "idN na \<noteq> idN nb" "idN nb \<noteq> idN na" "idN na \<noteq> idN nc"
    "idN nc \<noteq> idN na" "idN nb \<noteq> idN nc" "idN nc \<noteq> idN nb"
    by auto
  have fwd_dir: "opsInRange graph (Some na) nc [] =
                 Inr [opName (defn na), opName (defn nb), opName (defn nc)]"
    using ne assms(2-10) by (simp add: opsInRange.simps(2) adjacent_def)
  have rev_dir: "opsInRange graph (Some nc) na [] =
                Inr [opName (defn nc), opName (defn nb), opName (defn na)]"
    using ne assms(2-10) by (simp add: opsInRange.simps(2) adjacent_def)
  from fwd_dir rev_dir show ?thesis by (rule conjI)
qed

theorem opsInRange_chain_witness:
  "distinct [idN (opNode ''A'' ''op_a''), idN (opNode ''B'' ''op_b''), idN (opNode ''C'' ''op_c'')] \<and>
   lookup (nodes opChain) (idN (opNode ''A'' ''op_a'')) = Some (opNode ''A'' ''op_a'') \<and>
   lookup (nodes opChain) (idN (opNode ''B'' ''op_b'')) = Some (opNode ''B'' ''op_b'') \<and>
   lookup (nodes opChain) (idN (opNode ''C'' ''op_c'')) = Some (opNode ''C'' ''op_c'') \<and>
   neighbourIds (upstream opChain) (idN (opNode ''A'' ''op_a'')) = [] \<and>
   neighbourIds (downstream opChain) (idN (opNode ''A'' ''op_a'')) = [idN (opNode ''B'' ''op_b'')] \<and>
   neighbourIds (upstream opChain) (idN (opNode ''B'' ''op_b'')) = [idN (opNode ''A'' ''op_a'')] \<and>
   neighbourIds (downstream opChain) (idN (opNode ''B'' ''op_b'')) = [idN (opNode ''C'' ''op_c'')] \<and>
   neighbourIds (upstream opChain) (idN (opNode ''C'' ''op_c'')) = [idN (opNode ''B'' ''op_b'')] \<and>
   neighbourIds (downstream opChain) (idN (opNode ''C'' ''op_c'')) = [] \<and>
   opsInRange opChain (Some (opNode ''A'' ''op_a'')) (opNode ''C'' ''op_c'') [] =
     Inr [Some ''op_a'', Some ''op_b'', Some ''op_c''] \<and>
   opsInRange opChain (Some (opNode ''C'' ''op_c'')) (opNode ''A'' ''op_a'') [] =
     Inr [Some ''op_c'', Some ''op_b'', Some ''op_a'']"
proof -
  have d: "distinct [idN (opNode ''A'' ''op_a''), idN (opNode ''B'' ''op_b''),
                     idN (opNode ''C'' ''op_c'')]"
    by (simp add: opNode_def)
  have la: "lookup (nodes opChain) (idN (opNode ''A'' ''op_a'')) = Some (opNode ''A'' ''op_a'')"
    and lb: "lookup (nodes opChain) (idN (opNode ''B'' ''op_b'')) = Some (opNode ''B'' ''op_b'')"
    and lc: "lookup (nodes opChain) (idN (opNode ''C'' ''op_c'')) = Some (opNode ''C'' ''op_c'')"
    by (simp_all add: opChain_def opNode_def lookup_def)
  have ua: "neighbourIds (upstream opChain) (idN (opNode ''A'' ''op_a'')) = []"
    and da: "neighbourIds (downstream opChain) (idN (opNode ''A'' ''op_a'')) =
             [idN (opNode ''B'' ''op_b'')]"
    and ub: "neighbourIds (upstream opChain) (idN (opNode ''B'' ''op_b'')) =
             [idN (opNode ''A'' ''op_a'')]"
    and db: "neighbourIds (downstream opChain) (idN (opNode ''B'' ''op_b'')) =
             [idN (opNode ''C'' ''op_c'')]"
    and uc: "neighbourIds (upstream opChain) (idN (opNode ''C'' ''op_c'')) =
             [idN (opNode ''B'' ''op_b'')]"
    and dc: "neighbourIds (downstream opChain) (idN (opNode ''C'' ''op_c'')) = []"
    by (simp_all add: opChain_def opNode_def neighbourIds_def Object_keys_def lookup_def)
  have names: "opName (defn (opNode ''A'' ''op_a'')) = Some ''op_a''"
    "opName (defn (opNode ''B'' ''op_b'')) = Some ''op_b''"
    "opName (defn (opNode ''C'' ''op_c'')) = Some ''op_c''"
    by (simp_all add: opNode_def)
  from opsInRange_chain [OF d la lb lc ua da ub db uc dc]
  have "opsInRange opChain (Some (opNode ''A'' ''op_a'')) (opNode ''C'' ''op_c'') [] =
          Inr [Some ''op_a'', Some ''op_b'', Some ''op_c''] \<and>
        opsInRange opChain (Some (opNode ''C'' ''op_c'')) (opNode ''A'' ''op_a'') [] =
          Inr [Some ''op_c'', Some ''op_b'', Some ''op_a'']"
    by (simp only: names)
  with d la lb lc ua da ub db uc dc show ?thesis by (intro conjI) simp_all
qed

theorem opsInRange_chain_counterexample:
  "opsInRange opChain (Some (opNode ''A'' ''op_a'')) (opNode ''C'' ''op_c'') [] =
     Inr [Some ''op_a'', Some ''op_b'', Some ''op_c''] \<and>
   opsInRange opChain (Some (opNode ''A'' ''op_a'')) (opNode ''C'' ''op_c'') [] \<noteq>
     Inr [Some ''A'', Some ''B'', Some ''C'']"
  by (simp add: eval_defs opChain_def opNode_def)

text \<open>
  Claim C5. When \<^verbatim>\<open>from\<close> and \<^verbatim>\<open>to\<close> are the same node, the path search
  returns the single-element sequence holding that node's operation name, for every graph
  and every list of visited ids.
\<close>

theorem opsInRange_same_node:
  "opsInRange graph (Some n) n seen = Inr [opName (defn n)]"
  by (simp add: opsInRange.simps(2))

text \<open>
  Claim C6. In a graph that is keyed by node id and has no dangling id, when no chain of
  upstream or downstream steps, taken in either direction, leads from the id of \<open>from\<close>
  to the id of \<open>to\<close>, the path search returns the empty sequence as an ordinary result,
  not an exception.
\<close>

theorem opsInRange_disconnected:
  assumes "keyedById graph" and "noDanglingIds graph"
    and "(idN from, idN to) \<notin> (adjacency graph \<union> (adjacency graph)\<inverse>)\<^sup>*"
  shows "opsInRange graph (Some from) to seen = Inr []"
proof -
  have "(adjacency graph)\<^sup>* \<subseteq> (adjacency graph \<union> (adjacency graph)\<inverse>)\<^sup>*"
    by (rule rtrancl_mono) simp
  with assms(3) have "(idN from, idN to) \<notin> (adjacency graph)\<^sup>*" by blast
  with assms(1,2) show ?thesis by (rule no_path_empty)
qed

theorem opsInRange_disconnected_witness:
  "keyedById splitGraph \<and> noDanglingIds splitGraph \<and>
   (idN (mkNode ''A''), idN (mkNode ''C'')) \<notin>
     (adjacency splitGraph \<union> (adjacency splitGraph)\<inverse>)\<^sup>* \<and>
   opsInRange splitGraph (Some (mkNode ''A'')) (mkNode ''C'') [] = Inr []"
proof -
  have dis: "(idN (mkNode ''A''), idN (mkNode ''C'')) \<notin>
     (adjacency splitGraph \<union> (adjacency splitGraph)\<inverse>)\<^sup>*"
    using split_disconnected by (simp add: mkNode_def)
  from opsInRange_disconnected [OF split_invariants dis, of "[]"] split_invariants dis
  show ?thesis by simp
qed

text \<open>
  Claim C10. A non-empty result of the path search lists the operation names along a simple
  path of the graph: there are nodes \<open>ns\<close>, the first one \<open>from\<close> and the last one
  with the id of \<open>to\<close>, each linked to the next through the upstream or the downstream
  mapping, with no id occurring twice and none of the ids after the first in \<open>seen\<close>;
  the result holds their operation names in order, the last one read from \<open>to\<close>.
\<close>

theorem opsInRange_simple_path:
  assumes "opsInRange graph (Some from) to seen = Inr r" and "r \<noteq> []"
  shows "\<exists>ns. ns \<noteq> [] \<and> hd ns = from \<and> idN (last ns) = idN to \<and>
              successively (linked graph) ns \<and> distinct (map idN ns) \<and>
              r = map (\<lambda>n. opName (defn n)) (butlast ns) @ [opName (defn to)] \<and>
              set (map idN (tl ns)) \<inter> set seen = {}"
  using path_exists [OF assms] unfolding pathOf_def by blast

theorem opsInRange_simple_path_witness:
  "opsInRange (chainGraph ''A'' ''B'' ''C'') (Some (mkNode ''A'')) (mkNode ''C'') [] =
     Inr [Some ''A'', Some ''B'', Some ''C''] \<and>
   [Some ''A'', Some ''B'', Some ''C''] \<noteq> [] \<and>
   (\<exists>ns. ns \<noteq> [] \<and> hd ns = mkNode ''A'' \<and> idN (last ns) = idN (mkNode ''C'') \<and>
         successively (linked (chainGraph ''A'' ''B'' ''C'')) ns \<and> distinct (map idN ns) \<and>
         [Some ''A'', Some ''B'', Some ''C''] =
           map (\<lambda>n. opName (defn n)) (butlast ns) @ [opName (defn (mkNode ''C''))] \<and>
         set (map idN (tl ns)) \<inter> set [] = {})"
proof -
  have ev: "opsInRange (chainGraph ''A'' ''B'' ''C'') (Some (mkNode ''A'')) (mkNode ''C'') [] =
     Inr [Some ''A'', Some ''B'', Some ''C'']"
    by (rule chain_eval) simp
  have ne: "[Some ''A'', Some ''B'', Some ''C''] \<noteq> []" by simp
  from opsInRange_simple_path [OF ev ne] ev ne show ?thesis by blast
qed

end
